theory Spec2Isabelle
  imports Complex_Main "HOL-Library.Char_ord" "HOL-Library.List_Lexorder"
begin

section \<open>Strings and character classes\<close>

text \<open>
  A Python \<open>str\<close> is modelled as a \<open>string\<close>: a list of 8-bit characters, read as the
  code points U+0000 to U+00FF. The character classes below are the ones Python 3 uses
  for \<open>str\<close> on that range: \<open>\d\<close> is the decimal digits, \<open>\w\<close> (which decides
  \<open>\b\<close>) is the alphanumeric characters and the underscore, \<open>str.isupper\<close> and
  \<open>str.islower\<close> follow the Unicode case properties. Strings are ordered as Python
  orders them: lexicographically by code point, a proper prefix first.
\<close>

definition between :: "char \<Rightarrow> char \<Rightarrow> char \<Rightarrow> bool" where
  "between lo hi c = (lo \<le> c \<and> c \<le> hi)"

definition is_digit :: "char \<Rightarrow> bool" where
  "is_digit c = between CHR ''0'' CHR ''9'' c"

definition char_isupper :: "char \<Rightarrow> bool" where
  "char_isupper c =
     (between CHR ''A'' CHR ''Z'' c \<or> between (CHR 0xC0) (CHR 0xD6) c
      \<or> between (CHR 0xD8) (CHR 0xDE) c)"

definition char_islower :: "char \<Rightarrow> bool" where
  "char_islower c =
     (between CHR ''a'' CHR ''z'' c \<or> c = CHR 0xAA \<or> c = CHR 0xB5 \<or> c = CHR 0xBA
      \<or> between (CHR 0xDF) (CHR 0xF6) c \<or> between (CHR 0xF8) (CHR 0xFF) c)"

definition is_word :: "char \<Rightarrow> bool" where
  "is_word c =
     (is_digit c \<or> between CHR ''A'' CHR ''Z'' c \<or> c = CHR ''_''
      \<or> between CHR ''a'' CHR ''z'' c \<or> c = CHR 0xAA \<or> between (CHR 0xB2) (CHR 0xB3) c
      \<or> c = CHR 0xB5 \<or> between (CHR 0xB9) (CHR 0xBA) c \<or> between (CHR 0xBC) (CHR 0xBE) c
      \<or> between (CHR 0xC0) (CHR 0xD6) c \<or> between (CHR 0xD8) (CHR 0xF6) c
      \<or> between (CHR 0xF8) (CHR 0xFF) c)"

text \<open>\<open>str.isupper()\<close>: no lower-case character and at least one upper-case one.\<close>

definition isupper :: "string \<Rightarrow> bool" where
  "isupper s = (\<not> list_ex char_islower s \<and> list_ex char_isupper s)"

text \<open>\<open>s.startswith(p)\<close>, \<open>sub in s\<close> and \<open>s.split(sep)\<close> for a one-character separator.\<close>

definition startswith :: "string \<Rightarrow> string \<Rightarrow> bool" where
  "startswith s p = (take (length p) s = p)"

fun contains :: "string \<Rightarrow> string \<Rightarrow> bool" where
  "contains [] sub = (sub = [])"
| "contains (c # cs) sub = (startswith (c # cs) sub \<or> contains cs sub)"

fun split :: "char \<Rightarrow> string \<Rightarrow> string list" where
  "split sep [] = [[]]"
| "split sep (c # cs) =
     (if c = sep then [] # split sep cs
      else (case split sep cs of [] \<Rightarrow> [[c]] | w # ws \<Rightarrow> (c # w) # ws))"

section \<open>Regular expressions as \<open>re\<close> runs them\<close>

text \<open>
  The patterns of \<open>patterns.py\<close> are alternatives of sequences of items: a character
  class repeated between a lower and an optional upper bound (greedy, giving back one
  character at a time when the rest of the pattern fails), the word boundary \<open>\b\<close>,
  and the anchors \<open>^\<close> and \<open>$\<close> (without \<open>re.MULTILINE\<close>: the start of the string, and
  the end of the string or the position before a final newline). A cursor is the
  character just before the position (if any) and the text from the position on.
\<close>

datatype cclass = Lit char | Digit | Range char char | Either cclass cclass

datatype item = Rep cclass nat "nat option" | WordB | Bol | Eol

type_synonym regex = "item list list"

type_synonym cursor = "char option \<times> string"

fun cmatch :: "cclass \<Rightarrow> char \<Rightarrow> bool" where
  "cmatch (Lit a) c = (c = a)"
| "cmatch Digit c = is_digit c"
| "cmatch (Range lo hi) c = between lo hi c"
| "cmatch (Either a b) c = (cmatch a c \<or> cmatch b c)"

fun consume :: "nat \<Rightarrow> cursor \<Rightarrow> cursor" where
  "consume 0 cur = cur"
| "consume (Suc n) (p, []) = (p, [])"
| "consume (Suc n) (p, c # cs) = consume n (Some c, cs)"

definition at_boundary :: "cursor \<Rightarrow> bool" where
  "at_boundary cur =
     ((case fst cur of None \<Rightarrow> False | Some p \<Rightarrow> is_word p)
      \<noteq> (case snd cur of [] \<Rightarrow> False | c # cs \<Rightarrow> is_word c))"

text \<open>\<open>attempt f lo n\<close> tries the counts \<open>n\<close>, \<open>n - 1\<close>, ... down to \<open>lo\<close>; the first success wins.\<close>

fun attempt :: "(nat \<Rightarrow> nat option) \<Rightarrow> nat \<Rightarrow> nat \<Rightarrow> nat option" where
  "attempt f lo 0 = (if lo = 0 then f 0 else None)"
| "attempt f lo (Suc n) =
     (if Suc n < lo then None
      else (case f (Suc n) of Some r \<Rightarrow> Some r | None \<Rightarrow> attempt f lo n))"

definition step :: "item \<Rightarrow> (cursor \<Rightarrow> nat option) \<Rightarrow> cursor \<Rightarrow> nat option" where
  "step it k cur =
     (case it of
        WordB \<Rightarrow> (if at_boundary cur then k cur else None)
      | Bol \<Rightarrow> (if fst cur = None then k cur else None)
      | Eol \<Rightarrow> (if snd cur = [] \<or> snd cur = [CHR 0x0A] then k cur else None)
      | Rep a lo hi \<Rightarrow>
          (let avail = length (takeWhile (cmatch a) (snd cur));
               top = (case hi of None \<Rightarrow> avail | Some h \<Rightarrow> min h avail)
           in attempt (\<lambda>n. map_option (\<lambda>r. n + r) (k (consume n cur))) lo top))"

text \<open>The length of the match of a sequence at the cursor, if it matches there.\<close>

primrec seq_match :: "item list \<Rightarrow> cursor \<Rightarrow> nat option" where
  "seq_match [] = (\<lambda>cur. Some 0)"
| "seq_match (it # its) = step it (seq_match its)"

text \<open>Alternatives are tried from left to right.\<close>

fun rmatch :: "regex \<Rightarrow> cursor \<Rightarrow> nat option" where
  "rmatch [] cur = None"
| "rmatch (alt # alts) cur =
     (case seq_match alt cur of Some n \<Rightarrow> Some n | None \<Rightarrow> rmatch alts cur)"

text \<open>\<open>pattern.match(text)\<close> as a truth value: a match at the start of the text.\<close>

definition re_match :: "regex \<Rightarrow> string \<Rightarrow> bool" where
  "re_match r s = (rmatch r (None, s) \<noteq> None)"

text \<open>
  \<open>pattern.findall(text)\<close> for a pattern without groups: the matched strings, scanning
  from left to right, each search resuming where the last match ended (one character
  further after an empty match).
\<close>

function scan :: "regex \<Rightarrow> cursor \<Rightarrow> string list" where
  "scan r (p, []) = (case rmatch r (p, []) of None \<Rightarrow> [] | Some n \<Rightarrow> [[]])"
| "scan r (p, c # cs) =
     (case rmatch r (p, c # cs) of
        None \<Rightarrow> scan r (Some c, cs)
      | Some n \<Rightarrow>
          (if n = 0 then [] # scan r (Some c, cs)
           else take n (c # cs) # scan r (consume (n - 1) (Some c, cs))))"
  by pat_completeness auto

termination scan
proof (relation "measure (\<lambda>(r, cur). length (snd cur))", goal_cases)
  case (4 r p c cs n)
  have "snd (consume k cur) = drop k (snd cur)" for k cur
    by (induction k cur rule: consume.induct) simp_all
  then have "length (snd (consume (n - 1) (Some c, cs))) \<le> length cs"
    by simp
  then show ?case by simp
qed simp_all

definition findall :: "regex \<Rightarrow> string \<Rightarrow> string list" where
  "findall r s = scan r (None, s)"

section \<open>The pattern tables of \<open>patterns.py\<close>\<close>

definition lit :: "string \<Rightarrow> item list" where
  "lit s = map (\<lambda>c. Rep (Lit c) 1 (Some 1)) s"

abbreviation upper_AZ :: cclass where
  "upper_AZ \<equiv> Range CHR ''A'' CHR ''Z''"

abbreviation upper_AZ09 :: cclass where
  "upper_AZ09 \<equiv> Either (Range CHR ''A'' CHR ''Z'') (Range CHR ''0'' CHR ''9'')"

text \<open>\<^verbatim>\<open>STORM_P\d{4}-\d+\<close>\<close>

definition PUMP_PATTERN_STORM :: regex where
  "PUMP_PATTERN_STORM =
     [lit ''STORM_P'' @ [Rep Digit 4 (Some 4)] @ lit ''-'' @ [Rep Digit 1 None]]"

text \<open>\<^verbatim>\<open>\bP\d{4}\b\<close>\<close>

definition PUMP_PATTERN_SHORT :: regex where
  "PUMP_PATTERN_SHORT = [[WordB] @ lit ''P'' @ [Rep Digit 4 (Some 4), WordB]]"

text \<open>\<^verbatim>\<open>ROCK TRAP \d+\<close>\<close>

definition ROCK_TRAP_PATTERN :: regex where
  "ROCK_TRAP_PATTERN = [lit ''ROCK TRAP '' @ [Rep Digit 1 None]]"

text \<open>\<^verbatim>\<open>VLV\d{4}\<close>\<close>

definition VALVE_PATTERN :: regex where
  "VALVE_PATTERN = [lit ''VLV'' @ [Rep Digit 4 (Some 4)]]"

text \<open>\<^verbatim>\<open>\b[A-Z]{2}-[A-Z0-9]{2,4}-[A-Z0-9]{2,4}-\d{4}\b\<close>\<close>

definition INSTRUMENT_PATTERN :: regex where
  "INSTRUMENT_PATTERN =
     [[WordB, Rep upper_AZ 2 (Some 2)] @ lit ''-'' @ [Rep upper_AZ09 2 (Some 4)] @ lit ''-''
      @ [Rep upper_AZ09 2 (Some 4)] @ lit ''-'' @ [Rep Digit 4 (Some 4), WordB]]"

text \<open>\<^verbatim>\<open>\b[A-Z]{3,4}\d{4}\b\<close>\<close>

definition GENERIC_TAG_PATTERN :: regex where
  "GENERIC_TAG_PATTERN = [[WordB, Rep upper_AZ 3 (Some 4), Rep Digit 4 (Some 4), WordB]]"

text \<open>\<^verbatim>\<open>\b[A-Z]{2}\d{1,3}\b\<close>\<close>

definition VENDOR_EQUIPMENT_PATTERN :: regex where
  "VENDOR_EQUIPMENT_PATTERN = [[WordB, Rep upper_AZ 2 (Some 2), Rep Digit 1 (Some 3), WordB]]"

text \<open>A whole-string alternative \<^verbatim>\<open>^...$\<close> of an exclusion rule.\<close>

definition anchored :: "item list \<Rightarrow> item list" where
  "anchored its = [Bol] @ its @ [Eol]"

definition EXCLUDE_PATTERNS :: "regex list" where
  "EXCLUDE_PATTERNS =
     [ [anchored (lit ''ST'' @ [Rep Digit 4 (Some 4)])],
       [anchored (lit ''P'' @ [Rep Digit 4 (Some 4)] @ lit ''-'' @ [Rep Digit 1 None]
                  @ lit ''-'' @ [Rep Digit 1 None])],
       [anchored (lit ''P'' @ [Rep Digit 4 (Some 4)] @ lit ''-'' @ [Rep Digit 1 None])],
       [anchored (lit ''NOTE '' @ [Rep Digit 1 None])],
       [anchored [Rep (Range CHR ''A'' CHR ''G'') 1 (Some 1)]],
       [anchored [Rep Digit 1 (Some 2)]],
       [anchored (lit ''EXISTING''), anchored (lit ''PROPOSED''),
        anchored (lit ''WATER CANNON''), anchored (lit ''WATER HYDRANT'')],
       [anchored (lit ''SHEET No.''), anchored (lit ''DRAWING STATUS''),
        anchored (lit ''REVISION'')],
       [anchored (lit ''COPYRIGHT''), anchored (lit ''APPROVAL''),
        anchored (lit ''DRAWN BY''), anchored (lit ''CHECKED BY'')] ]"

text \<open>The dictionary \<open>COMPILED_PATTERNS\<close>, in its insertion order (the order of iteration).\<close>

definition COMPILED_PATTERNS :: "(string \<times> regex) list" where
  "COMPILED_PATTERNS =
     [ (''pump_storm'', PUMP_PATTERN_STORM),
       (''pump_short'', PUMP_PATTERN_SHORT),
       (''rock_trap'', ROCK_TRAP_PATTERN),
       (''valve'', VALVE_PATTERN),
       (''instrument'', INSTRUMENT_PATTERN),
       (''generic_tag'', GENERIC_TAG_PATTERN),
       (''vendor'', VENDOR_EQUIPMENT_PATTERN) ]"

definition COMPILED_EXCLUDE :: "regex list" where
  "COMPILED_EXCLUDE = EXCLUDE_PATTERNS"

definition is_excluded :: "string \<Rightarrow> bool" where
  "is_excluded t = list_ex (\<lambda>pattern. re_match pattern t) COMPILED_EXCLUDE"

text \<open>
  \<open>is_likely_tag\<close>. The quotient of the two lengths is a float in the source; it is only
  computed for a text of at most 50 characters, where the rounded quotient exceeds
  \<open>0.5\<close> exactly when the real one does.
\<close>

definition is_likely_tag :: "string \<Rightarrow> bool" where
  "is_likely_tag t =
     (if t = [] \<or> length t > 50 then False
      else if isupper t \<or> real (length (filter char_isupper t)) / real (length t) > 0.5
      then True
      else False)"

section \<open>The class \<open>TagExtractor\<close>\<close>

text \<open>
  The instance is a record of its three attributes; a method that assigns to them takes
  the instance and returns it updated, next to its result. \<open>tag_counts\<close> is a
  \<open>Counter\<close>: a key that is absent reads as \<open>0\<close>.
\<close>

record tag_extractor =
  text_blob :: string
  tags :: "string list"
  tag_counts :: "string \<rightharpoonup> int"

definition TagExtractor :: "string \<Rightarrow> tag_extractor" where
  "TagExtractor t = \<lparr>text_blob = t, tags = [], tag_counts = Map.empty\<rparr>"

definition filter_short_pump_tags :: "string list \<Rightarrow> string list" where
  "filter_short_pump_tags ts = ts"

text \<open>The body of the inner loop of \<open>extract_all_tags\<close>, for one match.\<close>

definition accept_match :: "string \<Rightarrow> tag_extractor \<Rightarrow> tag_extractor" where
  "accept_match m s =
     (if is_likely_tag m \<and> \<not> is_excluded m
      then s\<lparr>tags := tags s @ [m],
             tag_counts := (tag_counts s)(m \<mapsto> (case tag_counts s m of None \<Rightarrow> 0 | Some n \<Rightarrow> n) + 1)\<rparr>
      else s)"

text \<open>The body of the outer loop, for one entry of \<open>COMPILED_PATTERNS\<close>.\<close>

definition scan_pattern :: "string \<times> regex \<Rightarrow> tag_extractor \<Rightarrow> tag_extractor" where
  "scan_pattern entry s = fold accept_match (findall (snd entry) (text_blob s)) s"

definition extract_all_tags :: "bool \<Rightarrow> tag_extractor \<Rightarrow> string list \<times> tag_extractor" where
  "extract_all_tags deduplicate s0 =
     (let s1 = s0\<lparr>tags := []\<rparr>;
          s2 = fold scan_pattern COMPILED_PATTERNS s1;
          s3 = s2\<lparr>tags := filter_short_pump_tags (tags s2)\<rparr>
      in if deduplicate then (sort (remdups (tags s3)), s3)
         else (sort (tags s3), s3))"

definition get_tag_counts :: "tag_extractor \<Rightarrow> (string \<rightharpoonup> int)" where
  "get_tag_counts s = tag_counts s"

record categorized =
  pumps :: "string list"
  valves :: "string list"
  instruments :: "string list"
  equipment :: "string list"
  other :: "string list"

text \<open>The body of the loop of \<open>get_tags_by_type\<close>, for one tag.\<close>

definition categorize :: "string \<Rightarrow> categorized \<Rightarrow> categorized" where
  "categorize tag c =
     (if startswith tag ''STORM_P'' \<or> (startswith tag ''P'' \<and> length tag = 5)
      then c\<lparr>pumps := pumps c @ [tag]\<rparr>
      else if startswith tag ''VLV''
      then c\<lparr>valves := valves c @ [tag]\<rparr>
      else if contains tag ''-'' \<and> length (split CHR ''-'' tag) \<ge> 3
      then c\<lparr>instruments := instruments c @ [tag]\<rparr>
      else if contains tag ''TRAP'' \<or> contains tag ''TANK''
      then c\<lparr>equipment := equipment c @ [tag]\<rparr>
      else c\<lparr>other := other c @ [tag]\<rparr>)"

text \<open>
  The loop runs over \<open>set(self.tags)\<close>, each distinct tag once in an order Python does not
  fix; every list is sorted afterwards, so the order of the loop does not show.
\<close>

definition get_tags_by_type :: "tag_extractor \<Rightarrow> categorized" where
  "get_tags_by_type s =
     (let c = fold categorize (remdups (tags s))
                \<lparr>pumps = [], valves = [], instruments = [], equipment = [], other = []\<rparr>
      in \<lparr>pumps = sort (pumps c), valves = sort (valves c),
          instruments = sort (instruments c), equipment = sort (equipment c),
          other = sort (other c)\<rparr>)"

record summary =
  total_unique :: int
  total_instances :: int
  n_pumps :: int
  n_valves :: int
  n_instruments :: int
  n_equipment :: int
  n_other :: int

definition get_summary :: "tag_extractor \<Rightarrow> summary" where
  "get_summary s =
     (let tags_by_type = get_tags_by_type s
      in \<lparr>total_unique = int (length (remdups (tags s))),
          total_instances = int (length (tags s)),
          n_pumps = int (length (pumps tags_by_type)),
          n_valves = int (length (valves tags_by_type)),
          n_instruments = int (length (instruments tags_by_type)),
          n_equipment = int (length (equipment tags_by_type)),
          n_other = int (length (other tags_by_type))\<rparr>)"

section \<open>The class \<open>PDFExtractor\<close>\<close>

text \<open>
  The file system and the recognition engine are the environment of every call. A path
  holds nothing, a file that is no readable PDF, or a document: its pages in order, each
  with the text of its native layer (\<open>page.extract_text()\<close>, which may be \<open>None\<close>) and
  the text the engine recognises on its rendered image in either configuration. Both
  libraries that open the file (\<open>pdfplumber\<close>, \<open>fitz\<close>) see the same pages. The source
  catches no exception, so what a library raises leaves the method: a missing file is
  \<open>DocumentNotFound\<close> (\<open>FileNotFoundError\<close>), a file the parser rejects is
  \<open>DocumentCorrupt\<close>, a call of the engine when it is not installed is
  \<open>ExtractionUnavailable\<close>. The progress line that \<open>extract_text\<close> prints is left out.
\<close>

datatype error = DocumentNotFound | DocumentCorrupt | ExtractionUnavailable

datatype psm = PSM6 | PSM11

record page =
  native :: "string option"
  recognised :: "psm \<Rightarrow> string"

datatype pdf_file = Unreadable | Pdf "page list"

record environment =
  files :: "string \<rightharpoonup> pdf_file"
  tesseract :: bool

record pdf_extractor =
  pdf_path :: string

definition newline :: string where
  "newline = [CHR 0x0A]"

text \<open>\<open>sep.join(xs)\<close>\<close>

fun join :: "string \<Rightarrow> string list \<Rightarrow> string" where
  "join sep [] = []"
| "join sep [x] = x"
| "join sep (x # y # ys) = x @ sep @ join sep (y # ys)"


text \<open>\<open>pdfplumber.open(self.pdf_path)\<close> and \<open>fitz.open(self.pdf_path)\<close>\<close>

definition open_pdf :: "environment \<Rightarrow> string \<Rightarrow> error + page list" where
  "open_pdf env path =
     (case files env path of
        None \<Rightarrow> Inl DocumentNotFound
      | Some Unreadable \<Rightarrow> Inl DocumentCorrupt
      | Some (Pdf ps) \<Rightarrow> Inr ps)"

text \<open>\<open>pytesseract.image_to_string(img, config=...)\<close> on the rendered page\<close>

definition image_to_string :: "environment \<Rightarrow> page \<Rightarrow> psm \<Rightarrow> error + string" where
  "image_to_string env p config =
     (if tesseract env then Inr (recognised p config) else Inl ExtractionUnavailable)"

definition extract_text_standard :: "environment \<Rightarrow> pdf_extractor \<Rightarrow> error + string" where
  "extract_text_standard env x =
     (case open_pdf env (pdf_path x) of
        Inl e \<Rightarrow> Inl e
      | Inr ps \<Rightarrow>
          Inr (join newline
                 (concat (map (\<lambda>p. case native p of
                                      None \<Rightarrow> []
                                    | Some t \<Rightarrow> if t \<noteq> [] then [t] else []) ps))))"

text \<open>The loop of \<open>_extract_text_ocr\<close> over the pages: the list \<open>all_text\<close>.\<close>

fun ocr_pages :: "environment \<Rightarrow> page list \<Rightarrow> error + string list" where
  "ocr_pages env [] = Inr []"
| "ocr_pages env (p # ps) =
     (case image_to_string env p PSM6 of
        Inl e \<Rightarrow> Inl e
      | Inr page_text \<Rightarrow>
          (case image_to_string env p PSM11 of
             Inl e \<Rightarrow> Inl e
           | Inr page_text_sparse \<Rightarrow>
               (let combined = page_text @ newline @ page_text_sparse
                in case ocr_pages env ps of
                     Inl e \<Rightarrow> Inl e
                   | Inr all_text \<Rightarrow>
                       Inr (if combined \<noteq> [] then combined # all_text else all_text))))"

definition extract_text_ocr :: "environment \<Rightarrow> pdf_extractor \<Rightarrow> error + string" where
  "extract_text_ocr env x =
     (case open_pdf env (pdf_path x) of
        Inl e \<Rightarrow> Inl e
      | Inr ps \<Rightarrow>
          (case ocr_pages env ps of
             Inl e \<Rightarrow> Inl e
           | Inr all_text \<Rightarrow> Inr (join newline all_text)))"

definition extract_text :: "environment \<Rightarrow> pdf_extractor \<Rightarrow> bool \<Rightarrow> int \<Rightarrow> error + string" where
  "extract_text env x use_ocr min_text_threshold =
     (case extract_text_standard env x of
        Inl e \<Rightarrow> Inl e
      | Inr text_extracted \<Rightarrow>
          if int (length text_extracted) \<ge> min_text_threshold then Inr text_extracted
          else if use_ocr then
            (case extract_text_ocr env x of
               Inl e \<Rightarrow> Inl e
             | Inr ocr_text \<Rightarrow> Inr (text_extracted @ newline @ ocr_text))
          else Inr text_extracted)"






section \<open>The category chain in the words of the specification\<close>

text \<open>
  The specification gives the categories as an ordered list of rules, each a predicate
  with its label, evaluated in sequence; the first rule that holds wins and \<open>Other\<close> is
  the default. \<open>spec_category\<close> is that reading, to be compared with the chain of
  \<open>if\<close>/\<open>elif\<close> in \<open>get_tags_by_type\<close>.
\<close>

datatype category = Pump | Valve | Instrument | Equipment | Other

definition pump_rule :: "string \<Rightarrow> bool" where
  "pump_rule t = (startswith t ''STORM_P'' \<or> (startswith t ''P'' \<and> length t = 5))"

definition valve_rule :: "string \<Rightarrow> bool" where
  "valve_rule t = startswith t ''VLV''"

definition instrument_rule :: "string \<Rightarrow> bool" where
  "instrument_rule t = (contains t ''-'' \<and> length (split CHR ''-'' t) \<ge> 3)"

definition equipment_rule :: "string \<Rightarrow> bool" where
  "equipment_rule t = (contains t ''TRAP'' \<or> contains t ''TANK'')"

fun first_rule :: "((string \<Rightarrow> bool) \<times> category) list \<Rightarrow> string \<Rightarrow> category" where
  "first_rule [] t = Other"
| "first_rule ((holds, label) # rules) t = (if holds t then label else first_rule rules t)"

definition spec_category :: "string \<Rightarrow> category" where
  "spec_category t =
     first_rule [(pump_rule, Pump), (valve_rule, Valve), (instrument_rule, Instrument),
                 (equipment_rule, Equipment)] t"

text \<open>The list of the result of \<open>get_tags_by_type\<close> that stands for a category.\<close>

fun tags_of :: "category \<Rightarrow> categorized \<Rightarrow> string list" where
  "tags_of Pump c = pumps c"
| "tags_of Valve c = valves c"
| "tags_of Instrument c = instruments c"
| "tags_of Equipment c = equipment c"
| "tags_of Other c = other c"

section \<open>Vocabulary of the properties\<close>

text \<open>
  The instance after a call of \<open>extract_all_tags\<close>; every raw match of the text, pattern
  by pattern in the order of the table; and the two acceptance tests of a match taken
  together.
\<close>

definition after_extract :: "bool \<Rightarrow> tag_extractor \<Rightarrow> tag_extractor" where
  "after_extract deduplicate s = snd (extract_all_tags deduplicate s)"

definition raw_matches :: "string \<Rightarrow> string list" where
  "raw_matches t = concat (map (\<lambda>entry. findall (snd entry) t) COMPILED_PATTERNS)"

definition accepted :: "string \<Rightarrow> bool" where
  "accepted m = (is_likely_tag m \<and> \<not> is_excluded m)"


text \<open>
  The native text of a document (the text layers of its pages that have one, in page
  order, joined by newlines) and its recognised text (for every page the output of both
  configurations joined by a newline, the pages joined by newlines).
\<close>

definition native_text :: "page list \<Rightarrow> string" where
  "native_text ps =
     join newline (filter (\<lambda>t. t \<noteq> []) (map (\<lambda>p. case native p of None \<Rightarrow> [] | Some t \<Rightarrow> t) ps))"

definition ocr_text :: "page list \<Rightarrow> string" where
  "ocr_text ps = join newline (map (\<lambda>p. recognised p PSM6 @ newline @ recognised p PSM11) ps)"

text \<open>
  A concrete environment: a scanned one-page document with a short text layer, and a file
  that is no PDF; the engine installed or not.
\<close>

definition example_page :: page where
  "example_page =
     \<lparr>native = Some ''VLV1001'',
      recognised = (\<lambda>config. case config of PSM6 \<Rightarrow> ''KD1'' | PSM11 \<Rightarrow> ''KD2'')\<rparr>"

definition example_env :: "bool \<Rightarrow> environment" where
  "example_env engine =
     \<lparr>files = [''scan.pdf'' \<mapsto> Pdf [example_page], ''broken.pdf'' \<mapsto> Unreadable],
      tesseract = engine\<rparr>"

text \<open>
  The strings a sequence of items can match, read off the pattern without running the
  matcher: each repetition contributes between its bounds many characters of its class,
  an anchor or a word boundary contributes none. With it go the least length of such a
  string, the characters it can hold, and a bound on how often it holds a character.
\<close>

fun at_most :: "nat option \<Rightarrow> nat \<Rightarrow> bool" where
  "at_most None k = True"
| "at_most (Some h) k = (k \<le> h)"

fun lang :: "item list \<Rightarrow> string \<Rightarrow> bool" where
  "lang [] s = (s = [])"
| "lang (Rep a lo hi # its) s =
     (\<exists>u v. s = u @ v \<and> lo \<le> length u \<and> at_most hi (length u) \<and> list_all (cmatch a) u
            \<and> lang its v)"
| "lang (WordB # its) s = lang its s"
| "lang (Bol # its) s = lang its s"
| "lang (Eol # its) s = lang its s"

fun min_len :: "item list \<Rightarrow> nat" where
  "min_len [] = 0"
| "min_len (Rep a lo hi # its) = lo + min_len its"
| "min_len (WordB # its) = min_len its"
| "min_len (Bol # its) = min_len its"
| "min_len (Eol # its) = min_len its"


fun occ_bound :: "char \<Rightarrow> item list \<Rightarrow> nat option" where
  "occ_bound c [] = Some 0"
| "occ_bound c (Rep a lo hi # its) =
     (if cmatch a c
      then (case hi of None \<Rightarrow> None | Some h \<Rightarrow> map_option (\<lambda>b. h + b) (occ_bound c its))
      else occ_bound c its)"
| "occ_bound c (WordB # its) = occ_bound c its"
| "occ_bound c (Bol # its) = occ_bound c its"
| "occ_bound c (Eol # its) = occ_bound c its"




text \<open>
  A \<open>Counter\<close> after counting the elements of a list into it.
\<close>

definition counted :: "(string \<rightharpoonup> int) \<Rightarrow> string list \<Rightarrow> (string \<rightharpoonup> int)" where
  "counted cs ts k =
     (if k \<in> set ts
      then Some ((case cs k of None \<Rightarrow> 0 | Some v \<Rightarrow> v) + int (count_list ts k))
      else cs k)"

section \<open>The matcher finds strings of the pattern\<close>

lemma snd_consume: "snd (consume n cur) = drop n (snd cur)"
  by (induction n cur rule: consume.induct) simp_all

lemma attempt_SomeD:
  "attempt f lo bound = Some r \<Longrightarrow> \<exists>k. lo \<le> k \<and> k \<le> bound \<and> f k = Some r"
proof (induction bound)
  case 0
  then show ?case by (auto split: if_splits)
next
  case (Suc bound)
  show ?case
  proof (cases "f (Suc bound)")
    case None
    with Suc.prems have "attempt f lo bound = Some r"
      by (simp split: if_splits)
    with Suc.IH obtain k where "lo \<le> k" "k \<le> bound" "f k = Some r" by blast
    then show ?thesis by (intro exI [of _ k]) simp
  next
    case (Some a)
    with Suc.prems have "\<not> Suc bound < lo" "a = r"
      by (simp_all split: if_splits)
    with Some show ?thesis by (intro exI [of _ "Suc bound"]) simp
  qed
qed

lemma take_takeWhile_all:
  "j \<le> length (takeWhile P xs) \<Longrightarrow> list_all P (take j xs)"
proof (induction xs arbitrary: j)
  case Nil
  then show ?case by simp
next
  case (Cons x xs)
  then show ?case by (cases j) (auto split: if_splits)
qed

lemma step_Rep_SomeD:
  assumes "step (Rep a lo hi) k cur = Some n"
  shows "\<exists>j r. lo \<le> j \<and> at_most hi j \<and> j \<le> length (snd cur)
           \<and> list_all (cmatch a) (take j (snd cur))
           \<and> k (consume j cur) = Some r \<and> n = j + r"
proof -
  let ?avail = "length (takeWhile (cmatch a) (snd cur))"
  from assms have "attempt (\<lambda>n. map_option (\<lambda>r. n + r) (k (consume n cur))) lo
      (case hi of None \<Rightarrow> ?avail | Some h \<Rightarrow> min h ?avail) = Some n"
    by (simp add: step_def Let_def)
  then obtain j where j: "lo \<le> j" "j \<le> (case hi of None \<Rightarrow> ?avail | Some h \<Rightarrow> min h ?avail)"
      "map_option (\<lambda>r. j + r) (k (consume j cur)) = Some n"
    using attempt_SomeD by blast
  from j(2) have ja: "j \<le> ?avail" and jh: "at_most hi j"
    by (auto split: option.splits)
  have jl: "j \<le> length (snd cur)"
    using ja length_takeWhile_le [of "cmatch a" "snd cur"] by simp
  have "list_all (cmatch a) (take j (snd cur))"
    using ja by (rule take_takeWhile_all)
  with j jh jl show ?thesis by auto
qed

lemma lang_RepI:
  "lo \<le> length u \<Longrightarrow> at_most hi (length u) \<Longrightarrow> list_all (cmatch a) u \<Longrightarrow> lang its v
   \<Longrightarrow> lang (Rep a lo hi # its) (u @ v)"
  unfolding lang.simps by (intro exI [of _ u] exI [of _ v]) simp

lemma seq_match_lang:
  "seq_match its cur = Some n \<Longrightarrow> n \<le> length (snd cur) \<and> lang its (take n (snd cur))"
proof (induction its arbitrary: cur n)
  case Nil
  then show ?case by simp
next
  case (Cons it its)
  show ?case
  proof (cases it)
    case (Rep a lo hi)
    with Cons.prems obtain j r where j: "lo \<le> j" "at_most hi j" "j \<le> length (snd cur)"
        "list_all (cmatch a) (take j (snd cur))" "seq_match its (consume j cur) = Some r"
        "n = j + r"
      using step_Rep_SomeD [of a lo hi "seq_match its" cur n] by auto
    from Cons.IH [OF j(5)] have r: "r \<le> length (drop j (snd cur))"
        "lang its (take r (drop j (snd cur)))"
      by (simp_all add: snd_consume)
    have split: "take n (snd cur) = take j (snd cur) @ take r (drop j (snd cur))"
      by (simp add: j(6) take_add)
    have len: "length (take j (snd cur)) = j" using j(3) by simp
    have "lang (Rep a lo hi # its) (take j (snd cur) @ take r (drop j (snd cur)))"
      by (rule lang_RepI) (simp_all add: len j r(2))
    then have "lang (it # its) (take n (snd cur))"
      by (simp only: split Rep)
    moreover have "n \<le> length (snd cur)"
      using r(1) j(3,6) by simp
    ultimately show ?thesis by simp
  next
    case WordB
    with Cons.prems have "seq_match its cur = Some n"
      by (simp add: step_def split: if_splits)
    with Cons.IH WordB show ?thesis by simp
  next
    case Bol
    with Cons.prems have "seq_match its cur = Some n"
      by (simp add: step_def split: if_splits)
    with Cons.IH Bol show ?thesis by simp
  next
    case Eol
    with Cons.prems have "seq_match its cur = Some n"
      by (simp add: step_def split: if_splits)
    with Cons.IH Eol show ?thesis by simp
  qed
qed

lemma rmatch_SomeD: "rmatch r cur = Some n \<Longrightarrow> \<exists>alt \<in> set r. seq_match alt cur = Some n"
  by (induction r) (auto split: option.splits)

lemma scan_lang: "m \<in> set (scan r cur) \<Longrightarrow> \<exists>alt \<in> set r. lang alt m"
proof (induction r cur rule: scan.induct)
  case (1 r p)
  show ?case
  proof (cases "rmatch r (p, [])")
    case None
    with 1 show ?thesis by simp
  next
    case (Some n)
    then obtain alt where alt: "alt \<in> set r" "seq_match alt (p, []) = Some n"
      using rmatch_SomeD by blast
    from 1 Some have "m = []" by simp
    with seq_match_lang [OF alt(2)] alt(1) show ?thesis by auto
  qed
next
  case (2 r p c cs)
  show ?case
  proof (cases "rmatch r (p, c # cs)")
    case None
    with 2 show ?thesis by simp
  next
    case (Some n)
    then obtain alt where alt: "alt \<in> set r" "seq_match alt (p, c # cs) = Some n"
      using rmatch_SomeD by blast
    from seq_match_lang [OF alt(2)] have "lang alt (take n (c # cs))" by simp
    with 2 Some alt(1) show ?thesis
      by (cases "n = 0") auto
  qed
qed

lemma findall_lang: "m \<in> set (findall r t) \<Longrightarrow> \<exists>alt \<in> set r. lang alt m"
  by (simp add: findall_def scan_lang)

lemma lang_min_len: "lang its s \<Longrightarrow> min_len its \<le> length s"
proof (induction its arbitrary: s)
  case Nil
  then show ?case by simp
next
  case (Cons it its)
  show ?case
  proof (cases it)
    case (Rep a lo hi)
    with Cons.prems obtain u v where uv: "s = u @ v" "lo \<le> length u" "lang its v"
      by auto
    from Cons.IH [OF uv(3)] uv(1,2) Rep show ?thesis by simp
  qed (use Cons in simp_all)
qed







lemma raw_match_lang:
  assumes "m \<in> set (raw_matches t)"
  shows "\<exists>alt \<in> set (concat (map snd COMPILED_PATTERNS)). lang alt m"
proof -
  from assms obtain entry where "entry \<in> set COMPILED_PATTERNS" "m \<in> set (findall (snd entry) t)"
    by (auto simp: raw_matches_def)
  then show ?thesis using findall_lang [of m "snd entry" t] by auto
qed

lemma patterns_alternatives:
  "concat (map snd COMPILED_PATTERNS)
   = PUMP_PATTERN_STORM @ PUMP_PATTERN_SHORT @ ROCK_TRAP_PATTERN @ VALVE_PATTERN
     @ INSTRUMENT_PATTERN @ GENERIC_TAG_PATTERN @ VENDOR_EQUIPMENT_PATTERN"
  by (simp add: COMPILED_PATTERNS_def)

lemmas pattern_defs = PUMP_PATTERN_STORM_def PUMP_PATTERN_SHORT_def ROCK_TRAP_PATTERN_def
  VALVE_PATTERN_def INSTRUMENT_PATTERN_def GENERIC_TAG_PATTERN_def VENDOR_EQUIPMENT_PATTERN_def



lemma length_split: "length (split sep s) = Suc (length (filter (\<lambda>x. x = sep) s))"
  by (induction s) (auto split: list.splits)

lemma contains_single: "contains s [c] = (c \<in> set s)"
  by (induction s) (auto simp: startswith_def)

lemma instrument_rule_count:
  "instrument_rule t = (2 \<le> length (filter (\<lambda>x. x = CHR ''-'') t))"
proof -
  have "CHR ''-'' \<in> set t" if "2 \<le> length (filter (\<lambda>x. x = CHR ''-'') t)"
  proof -
    from that have "filter (\<lambda>x. x = CHR ''-'') t \<noteq> []" by auto
    then show ?thesis unfolding filter_empty_conv by blast
  qed
  then show ?thesis
    by (auto simp: instrument_rule_def contains_single length_split)
qed

lemma lang_occ_bound:
  "lang its s \<Longrightarrow> occ_bound c its = Some b \<Longrightarrow> length (filter (\<lambda>x. x = c) s) \<le> b"
proof (induction its arbitrary: s b)
  case Nil
  then show ?case by simp
next
  case (Cons it its)
  show ?case
  proof (cases it)
    case (Rep a lo hi)
    with Cons.prems(1) obtain u v where uv: "s = u @ v" "at_most hi (length u)"
        "list_all (cmatch a) u" "lang its v"
      by auto
    show ?thesis
    proof (cases "cmatch a c")
      case True
      with Cons.prems(2) Rep obtain h b' where h: "hi = Some h" "occ_bound c its = Some b'"
          "b = h + b'"
        by (auto split: option.splits)
      have "length (filter (\<lambda>x. x = c) u) \<le> length u" by simp
      also have "\<dots> \<le> h" using uv(2) h(1) by simp
      finally have "length (filter (\<lambda>x. x = c) u) \<le> h" .
      with Cons.IH [OF uv(4) h(2)] uv(1) h(3) show ?thesis by simp
    next
      case False
      with uv(3) have "filter (\<lambda>x. x = c) u = []"
        by (auto simp: filter_empty_conv list_all_iff)
      moreover from False Cons.prems(2) Rep have "occ_bound c its = Some b" by simp
      ultimately show ?thesis using Cons.IH [OF uv(4)] uv(1) by simp
    qed
  qed (use Cons in simp_all)
qed

lemma lang_RepD:
  "lang (Rep a lo hi # its) s \<Longrightarrow>
   \<exists>u v. s = u @ v \<and> lo \<le> length u \<and> at_most hi (length u) \<and> list_all (cmatch a) u
         \<and> lang its v"
  by simp

lemma lang_third:
  assumes "lang (WordB # Rep a 2 (Some 2) # Rep (Lit c) 1 (Some 1) # its) m"
  shows "\<exists>x y v. m = x # y # c # v"
proof -
  from assms have "lang (Rep a 2 (Some 2) # Rep (Lit c) 1 (Some 1) # its) m"
    by simp
  from lang_RepD [OF this] obtain u w where u: "m = u @ w" "2 \<le> length u"
      "at_most (Some 2) (length u)" "lang (Rep (Lit c) 1 (Some 1) # its) w"
    by blast
  from lang_RepD [OF u(4)] obtain u' v where v: "w = u' @ v" "1 \<le> length u'"
      "at_most (Some 1) (length u')" "list_all (cmatch (Lit c)) u'"
    by blast
  from u(2,3) have "length u = 2" by simp
  then obtain x y where "u = [x, y]"
    by (auto simp: length_Suc_conv numeral_2_eq_2)
  moreover from v(2,3,4) have "u' = [c]"
    by (cases u') auto
  ultimately show ?thesis using u(1) v(1) by simp
qed

lemma hyphen_bounds:
  "list_all (\<lambda>alt. \<exists>b. occ_bound (CHR ''-'') alt = Some b \<and> b < 2)
     (PUMP_PATTERN_STORM @ PUMP_PATTERN_SHORT @ ROCK_TRAP_PATTERN @ VALVE_PATTERN
      @ GENERIC_TAG_PATTERN @ VENDOR_EQUIPMENT_PATTERN)"
  by (simp add: pattern_defs lit_def is_digit_def between_def less_eq_char_def)

lemma raw_instrument_rule:
  assumes "m \<in> set (raw_matches t)" and "instrument_rule m"
  shows "\<not> pump_rule m \<and> \<not> valve_rule m"
proof -
  from raw_match_lang [OF assms(1)] obtain alt
    where alt: "alt \<in> set (concat (map snd COMPILED_PATTERNS))" "lang alt m"
    by blast
  from alt(1) consider
      (other) "alt \<in> set (PUMP_PATTERN_STORM @ PUMP_PATTERN_SHORT @ ROCK_TRAP_PATTERN
                 @ VALVE_PATTERN @ GENERIC_TAG_PATTERN @ VENDOR_EQUIPMENT_PATTERN)"
    | (instrument) "alt \<in> set INSTRUMENT_PATTERN"
    unfolding patterns_alternatives by auto
  then show ?thesis
  proof cases
    case other
    with hyphen_bounds obtain b where "occ_bound (CHR ''-'') alt = Some b" "b < 2"
      unfolding list_all_iff by blast
    with lang_occ_bound [OF alt(2)] have "length (filter (\<lambda>x. x = CHR ''-'') m) < 2"
      by fastforce
    with assms(2) show ?thesis by (simp add: instrument_rule_count)
  next
    case instrument
    then have a: "alt = WordB # Rep upper_AZ 2 (Some 2) # Rep (Lit CHR ''-'') 1 (Some 1)
        # ([Rep upper_AZ09 2 (Some 4)] @ lit ''-'' @ [Rep upper_AZ09 2 (Some 4)] @ lit ''-''
           @ [Rep Digit 4 (Some 4), WordB])"
      by (simp add: INSTRUMENT_PATTERN_def lit_def)
    from alt(2) obtain x y v where m: "m = x # y # CHR ''-'' # v"
      unfolding a using lang_third by blast
    have "min_len alt = 13" by (simp add: a lit_def)
    with lang_min_len [OF alt(2)] have "13 \<le> length m" by simp
    with m show ?thesis
      by (auto simp: pump_rule_def valve_rule_def startswith_def)
  qed
qed

section \<open>Properties of the tag extractor\<close>

subsection \<open>The accumulator after a call\<close>

lemma fold_accept_match_tags:
  "tags (fold accept_match ms s) = tags s @ filter accepted ms"
  by (induction ms arbitrary: s) (simp_all add: accept_match_def accepted_def)

lemma fold_accept_match_text: "text_blob (fold accept_match ms s) = text_blob s"
  by (induction ms arbitrary: s) (simp_all add: accept_match_def)

lemma fold_scan_pattern_text: "text_blob (fold scan_pattern ps s) = text_blob s"
  by (induction ps arbitrary: s) (simp_all add: scan_pattern_def fold_accept_match_text)

lemma fold_scan_pattern_tags:
  "tags (fold scan_pattern ps s) =
     tags s @ filter accepted (concat (map (\<lambda>entry. findall (snd entry) (text_blob s)) ps))"
  by (induction ps arbitrary: s)
     (simp_all add: scan_pattern_def fold_accept_match_tags fold_accept_match_text)

lemma tags_after_extract:
  "tags (after_extract d s) = filter accepted (raw_matches (text_blob s))"
  by (simp add: after_extract_def extract_all_tags_def Let_def fold_scan_pattern_tags
      raw_matches_def filter_short_pump_tags_def)

lemma text_after_extract: "text_blob (after_extract d s) = text_blob s"
  by (simp add: after_extract_def extract_all_tags_def Let_def fold_scan_pattern_text)

lemma result_extract:
  "fst (extract_all_tags d s) =
     (if d then sort (remdups (tags (after_extract d s))) else sort (tags (after_extract d s)))"
  by (simp add: after_extract_def extract_all_tags_def Let_def)


lemma tags_subset_raw: "set (tags (after_extract d s)) \<subseteq> set (raw_matches (text_blob s))"
  by (simp add: tags_after_extract)


lemma counted_Nil: "counted cs [] = cs"
  by (rule ext) (simp add: counted_def)

lemma counted_Cons:
  "counted cs (t # ts) = counted (cs(t \<mapsto> (case cs t of None \<Rightarrow> 0 | Some v \<Rightarrow> v) + 1)) ts"
  by (rule ext) (auto simp: counted_def)

lemma counted_append: "counted cs (ts @ us) = counted (counted cs ts) us"
  by (rule ext) (auto simp: counted_def)

lemma fold_accept_match_counts:
  "tag_counts (fold accept_match ms s) = counted (tag_counts s) (filter accepted ms)"
proof (induction ms arbitrary: s)
  case Nil
  show ?case by (simp add: counted_Nil)
next
  case (Cons m ms)
  have step: "tag_counts (fold accept_match (m # ms) s)
      = counted (tag_counts (accept_match m s)) (filter accepted ms)"
    using Cons.IH [of "accept_match m s"] by simp
  show ?case
  proof (cases "accepted m")
    case True
    then have "tag_counts (accept_match m s)
        = (tag_counts s)(m \<mapsto> (case tag_counts s m of None \<Rightarrow> 0 | Some v \<Rightarrow> v) + 1)"
      by (simp add: accept_match_def accepted_def)
    then have "counted (tag_counts (accept_match m s)) (filter accepted ms)
        = counted (tag_counts s) (m # filter accepted ms)"
      by (simp only: counted_Cons)
    with True step show ?thesis by simp
  next
    case False
    then have "accept_match m s = s"
      by (auto simp: accept_match_def accepted_def)
    with False step show ?thesis by simp
  qed
qed

lemma fold_scan_pattern_counts:
  "tag_counts (fold scan_pattern ps s) =
     counted (tag_counts s)
       (filter accepted (concat (map (\<lambda>entry. findall (snd entry) (text_blob s)) ps)))"
proof (induction ps arbitrary: s)
  case Nil
  show ?case by (simp add: counted_Nil)
next
  case (Cons p ps)
  show ?case
    by (simp add: Cons.IH) (simp add: scan_pattern_def fold_accept_match_counts
        fold_accept_match_text counted_append)
qed

lemma counts_after_extract:
  "get_tag_counts (after_extract d s) = counted (tag_counts s) (tags (after_extract d s))"
  by (simp add: get_tag_counts_def tags_after_extract)
     (simp add: after_extract_def extract_all_tags_def Let_def fold_scan_pattern_counts
       raw_matches_def)

lemma summary_after_second:
  "get_summary (after_extract d' (after_extract d s)) = get_summary (after_extract d s)"
proof -
  have "tags (after_extract d' (after_extract d s)) = tags (after_extract d s)"
    by (simp add: tags_after_extract text_after_extract)
  then show ?thesis by (simp add: get_summary_def get_tags_by_type_def)
qed

subsection \<open>The categories\<close>

lemma categorize_spec:
  "categorize tag c =
     (case spec_category tag of
        Pump \<Rightarrow> c\<lparr>pumps := pumps c @ [tag]\<rparr>
      | Valve \<Rightarrow> c\<lparr>valves := valves c @ [tag]\<rparr>
      | Instrument \<Rightarrow> c\<lparr>instruments := instruments c @ [tag]\<rparr>
      | Equipment \<Rightarrow> c\<lparr>equipment := equipment c @ [tag]\<rparr>
      | Other \<Rightarrow> c\<lparr>other := other c @ [tag]\<rparr>)"
  by (simp add: categorize_def spec_category_def pump_rule_def valve_rule_def
      instrument_rule_def equipment_rule_def)

lemma fold_categorize:
  "fold categorize ts c =
     \<lparr>pumps = pumps c @ filter (\<lambda>t. spec_category t = Pump) ts,
      valves = valves c @ filter (\<lambda>t. spec_category t = Valve) ts,
      instruments = instruments c @ filter (\<lambda>t. spec_category t = Instrument) ts,
      equipment = equipment c @ filter (\<lambda>t. spec_category t = Equipment) ts,
      other = other c @ filter (\<lambda>t. spec_category t = Other) ts\<rparr>"
proof (induction ts arbitrary: c)
  case Nil
  show ?case by simp
next
  case (Cons t ts)
  have "fold categorize (t # ts) c = fold categorize ts (categorize t c)"
    by simp
  also have "\<dots> = \<lparr>pumps = pumps (categorize t c) @ filter (\<lambda>t. spec_category t = Pump) ts,
      valves = valves (categorize t c) @ filter (\<lambda>t. spec_category t = Valve) ts,
      instruments = instruments (categorize t c) @ filter (\<lambda>t. spec_category t = Instrument) ts,
      equipment = equipment (categorize t c) @ filter (\<lambda>t. spec_category t = Equipment) ts,
      other = other (categorize t c) @ filter (\<lambda>t. spec_category t = Other) ts\<rparr>"
    by (rule Cons.IH)
  also have "\<dots> = \<lparr>pumps = pumps c @ filter (\<lambda>t. spec_category t = Pump) (t # ts),
      valves = valves c @ filter (\<lambda>t. spec_category t = Valve) (t # ts),
      instruments = instruments c @ filter (\<lambda>t. spec_category t = Instrument) (t # ts),
      equipment = equipment c @ filter (\<lambda>t. spec_category t = Equipment) (t # ts),
      other = other c @ filter (\<lambda>t. spec_category t = Other) (t # ts)\<rparr>"
    by (cases "spec_category t") (simp_all add: categorize_spec)
  finally show ?case .
qed

lemma get_tags_by_type_spec:
  "tags_of k (get_tags_by_type s) = sort (filter (\<lambda>t. spec_category t = k) (remdups (tags s)))"
  by (cases k) (simp_all add: get_tags_by_type_def fold_categorize)

lemma tags_of_set: "set (tags_of k (get_tags_by_type s)) = {t \<in> set (tags s). spec_category t = k}"
  by (auto simp: get_tags_by_type_spec)

lemma tags_of_distinct: "distinct (tags_of k (get_tags_by_type s))"
  by (simp add: get_tags_by_type_spec)

lemma length_by_category:
  "length (filter (\<lambda>t. spec_category t = Pump) xs)
   + length (filter (\<lambda>t. spec_category t = Valve) xs)
   + length (filter (\<lambda>t. spec_category t = Instrument) xs)
   + length (filter (\<lambda>t. spec_category t = Equipment) xs)
   + length (filter (\<lambda>t. spec_category t = Other) xs) = length xs"
proof (induction xs)
  case Nil
  show ?case by simp
next
  case (Cons x xs)
  then show ?case by (cases "spec_category x") simp_all
qed

lemma summary_total:
  "total_unique (get_summary s) =
     n_pumps (get_summary s) + n_valves (get_summary s) + n_instruments (get_summary s)
     + n_equipment (get_summary s) + n_other (get_summary s)"
proof -
  have "int (length (remdups (tags s))) =
        int (length (tags_of Pump (get_tags_by_type s))) + int (length (tags_of Valve (get_tags_by_type s)))
      + int (length (tags_of Instrument (get_tags_by_type s))) + int (length (tags_of Equipment (get_tags_by_type s)))
      + int (length (tags_of Other (get_tags_by_type s)))"
    unfolding get_tags_by_type_spec using length_by_category [of "remdups (tags s)"] by simp
  then show ?thesis by (simp add: get_summary_def Let_def)
qed

lemma instrument_category:
  assumes "t \<in> set (tags (after_extract d s0))"
  shows "(spec_category t = Instrument) = instrument_rule t"
proof (cases "instrument_rule t")
  case True
  from assms tags_subset_raw have "t \<in> set (raw_matches (text_blob s0))" by blast
  from raw_instrument_rule [OF this True] True show ?thesis
    by (simp add: spec_category_def)
next
  case False
  then show ?thesis by (simp add: spec_category_def)
qed

subsection \<open>Claims about the tag extractor\<close>

text \<open>
  C1. The claim: the accumulator (the list of accepted occurrences and the frequency
  mapping) is reset at the start of every \<open>extract_all_tags\<close> call, so a second call on
  the same instance gives the same \<open>get_tag_counts\<close> and the same \<open>get_summary\<close> as the
  first. The code resets \<open>self.tags\<close> only. On a fresh instance the first call counts
  every accepted tag as often as it occurs in the accepted list; a second call adds the
  same counts again, so every count doubles, while the summary stays the same. On the
  text \<open>KD1\<close> the count of \<open>KD1\<close> is 1 after the first call and 2 after the second.
\<close>

theorem extract_twice_counts_accumulate:
  "get_tag_counts (after_extract d (TagExtractor t)) k
     = (if k \<in> set (tags (after_extract d (TagExtractor t)))
        then Some (int (count_list (tags (after_extract d (TagExtractor t))) k)) else None)
   \<and> get_tag_counts (after_extract d' (after_extract d (TagExtractor t))) k
       = (if k \<in> set (tags (after_extract d (TagExtractor t)))
          then Some (2 * int (count_list (tags (after_extract d (TagExtractor t))) k)) else None)
   \<and> get_summary (after_extract d' (after_extract d (TagExtractor t)))
       = get_summary (after_extract d (TagExtractor t))
   \<and> get_tag_counts (after_extract True (TagExtractor ''KD1'')) ''KD1'' = Some 1
   \<and> get_tag_counts (after_extract True (after_extract True (TagExtractor ''KD1''))) ''KD1''
       = Some 2"
proof -
  let ?s = "after_extract d (TagExtractor t)"
  have same: "tags (after_extract d' ?s) = tags ?s"
    by (simp add: tags_after_extract text_after_extract)
  have 1: "get_tag_counts ?s = counted Map.empty (tags ?s)"
    by (simp add: counts_after_extract TagExtractor_def)
  have 2: "get_tag_counts (after_extract d' ?s) = counted (counted Map.empty (tags ?s)) (tags ?s)"
    using counts_after_extract [of d' ?s] 1 by (simp add: same get_tag_counts_def)
  have 3: "get_tag_counts (after_extract True (TagExtractor ''KD1'')) ''KD1'' = Some 1
   \<and> get_tag_counts (after_extract True (after_extract True (TagExtractor ''KD1''))) ''KD1''
       = Some 2"
    by code_simp
  show ?thesis
    unfolding 1 2 using 3 summary_after_second [of d' d "TagExtractor t"]
    by (simp add: counted_def)
qed

text \<open>
  C2. After an \<open>extract_all_tags\<close> call the five lists of \<open>get_tags_by_type\<close> partition
  the set of unique accepted tags: put end to end they hold no tag twice, and they hold
  exactly the accepted tags. In the summary \<open>total_unique\<close> is the sum of the five
  category counts and the number of distinct accepted tags, and \<open>total_instances\<close> is
  the length of the full accepted list (the list returned without deduplication).
\<close>

theorem categories_partition_summary:
  "distinct (pumps (get_tags_by_type (after_extract d s0))
             @ valves (get_tags_by_type (after_extract d s0))
             @ instruments (get_tags_by_type (after_extract d s0))
             @ equipment (get_tags_by_type (after_extract d s0))
             @ other (get_tags_by_type (after_extract d s0)))
   \<and> set (pumps (get_tags_by_type (after_extract d s0))
           @ valves (get_tags_by_type (after_extract d s0))
           @ instruments (get_tags_by_type (after_extract d s0))
           @ equipment (get_tags_by_type (after_extract d s0))
           @ other (get_tags_by_type (after_extract d s0)))
       = set (tags (after_extract d s0))
   \<and> total_unique (get_summary (after_extract d s0))
       = n_pumps (get_summary (after_extract d s0)) + n_valves (get_summary (after_extract d s0))
         + n_instruments (get_summary (after_extract d s0))
         + n_equipment (get_summary (after_extract d s0)) + n_other (get_summary (after_extract d s0))
   \<and> total_unique (get_summary (after_extract d s0)) = int (card (set (tags (after_extract d s0))))
   \<and> total_instances (get_summary (after_extract d s0)) = int (length (tags (after_extract d s0)))
   \<and> total_instances (get_summary (after_extract d s0))
       = int (length (fst (extract_all_tags False s0)))"
proof -
  let ?s = "after_extract d s0"
  let ?c = "get_tags_by_type ?s"
  have sets: "set (pumps ?c) = {t \<in> set (tags ?s). spec_category t = Pump}"
    "set (valves ?c) = {t \<in> set (tags ?s). spec_category t = Valve}"
    "set (instruments ?c) = {t \<in> set (tags ?s). spec_category t = Instrument}"
    "set (equipment ?c) = {t \<in> set (tags ?s). spec_category t = Equipment}"
    "set (other ?c) = {t \<in> set (tags ?s). spec_category t = Other}"
    using tags_of_set [of Pump ?s] tags_of_set [of Valve ?s] tags_of_set [of Instrument ?s]
      tags_of_set [of Equipment ?s] tags_of_set [of Other ?s]
    by simp_all
  have dist: "distinct (pumps ?c)" "distinct (valves ?c)" "distinct (instruments ?c)"
    "distinct (equipment ?c)" "distinct (other ?c)"
    using tags_of_distinct [of Pump ?s] tags_of_distinct [of Valve ?s]
      tags_of_distinct [of Instrument ?s] tags_of_distinct [of Equipment ?s]
      tags_of_distinct [of Other ?s]
    by simp_all
  have 1: "distinct (pumps ?c @ valves ?c @ instruments ?c @ equipment ?c @ other ?c)"
    using dist by (auto simp: sets)
  have 2: "set (pumps ?c @ valves ?c @ instruments ?c @ equipment ?c @ other ?c) = set (tags ?s)"
  proof -
    have "\<And>t. spec_category t = Pump \<or> spec_category t = Valve \<or> spec_category t = Instrument
          \<or> spec_category t = Equipment \<or> spec_category t = Other"
      by (metis category.exhaust)
    then show ?thesis by (auto simp: sets)
  qed
  have 3: "total_unique (get_summary ?s) = int (card (set (tags ?s)))"
    by (simp add: get_summary_def Let_def length_remdups_card_conv)
  have 4: "total_instances (get_summary ?s) = int (length (tags ?s))"
    by (simp add: get_summary_def Let_def)
  have 5: "tags (after_extract False s0) = tags ?s"
    by (simp add: tags_after_extract)
  have 6: "int (length (fst (extract_all_tags False s0))) = int (length (tags ?s))"
    by (simp add: result_extract 5)
  show ?thesis
    using 1 2 3 4 6 summary_total [of ?s] by simp
qed


text \<open>
  C5. \<open>get_tags_by_type\<close> puts every unique tag in the list of the category that the
  fixed-priority chain of the specification gives it (first rule that holds wins), and
  in no other; each list is ascending. No tag that satisfies the Instrument rule is in
  the Equipment list, and after \<open>extract_all_tags\<close> the Instrument list is exactly the
  accepted tags that satisfy the Instrument rule. The hyphenated tag \<open>AB-TRAP-12-1234\<close>
  satisfies the Instrument and the Equipment rule and is classified Instrument.
\<close>

theorem category_chain:
  "tags_of k (get_tags_by_type s) = sort (filter (\<lambda>t. spec_category t = k) (remdups (tags s)))
   \<and> set (tags_of k (get_tags_by_type s)) = {t \<in> set (tags s). spec_category t = k}
   \<and> filter instrument_rule (equipment (get_tags_by_type s)) = []
   \<and> set (instruments (get_tags_by_type (after_extract d s0)))
       = {t \<in> set (tags (after_extract d s0)). instrument_rule t}
   \<and> instrument_rule ''AB-TRAP-12-1234'' \<and> equipment_rule ''AB-TRAP-12-1234''
   \<and> get_tags_by_type (after_extract True (TagExtractor ''AB-TRAP-12-1234''))
       = \<lparr>pumps = [], valves = [], instruments = [''AB-TRAP-12-1234''], equipment = [],
          other = []\<rparr>"
proof -
  have 1: "filter instrument_rule (equipment (get_tags_by_type s)) = []"
    using tags_of_set [of Equipment s]
    by (auto simp: filter_empty_conv spec_category_def split: if_splits)
  have 2: "set (instruments (get_tags_by_type (after_extract d s0)))
       = {t \<in> set (tags (after_extract d s0)). instrument_rule t}"
    using tags_of_set [of Instrument "after_extract d s0"] instrument_category [of _ d s0]
    by auto
  have 3: "instrument_rule ''AB-TRAP-12-1234'' \<and> equipment_rule ''AB-TRAP-12-1234''"
    by code_simp
  have 4: "get_tags_by_type (after_extract True (TagExtractor ''AB-TRAP-12-1234''))
       = \<lparr>pumps = [], valves = [], instruments = [''AB-TRAP-12-1234''], equipment = [],
          other = []\<rparr>"
    by code_simp
  show ?thesis
    using 1 2 3 4 by (simp add: get_tags_by_type_spec)
qed

text \<open>
  C8. The short-pump pass \<open>_filter_short_pump_tags\<close> returns its input unchanged, so the
  list a call leaves is the raw matches that passed the two acceptance tests and nothing
  is filtered after them: on the sheet number \<open>P1011-1\<close> the short pump code \<open>P1011\<close> is
  matched, accepted and returned.
\<close>

theorem filter_short_pump_tags_identity:
  "filter_short_pump_tags ts = ts
   \<and> tags (after_extract d s0) = filter accepted (raw_matches (text_blob s0))
   \<and> fst (extract_all_tags True (TagExtractor ''P1011-1'')) = [''P1011'']"
proof -
  have "fst (extract_all_tags True (TagExtractor ''P1011-1'')) = [''P1011'']"
    by code_simp
  then show ?thesis
    by (simp add: filter_short_pump_tags_def tags_after_extract)
qed

text \<open>
  C10. On a freshly constructed \<open>TagExtractor\<close> the queries succeed: \<open>get_tag_counts\<close>
  is the empty mapping, \<open>get_tags_by_type\<close> has five empty lists and every count of
  \<open>get_summary\<close> is zero.
\<close>

theorem fresh_extractor_queries:
  "get_tag_counts (TagExtractor t) = Map.empty
   \<and> get_tags_by_type (TagExtractor t)
       = \<lparr>pumps = [], valves = [], instruments = [], equipment = [], other = []\<rparr>
   \<and> get_summary (TagExtractor t)
       = \<lparr>total_unique = 0, total_instances = 0, n_pumps = 0, n_valves = 0,
          n_instruments = 0, n_equipment = 0, n_other = 0\<rparr>"
  by (simp add: get_tag_counts_def get_tags_by_type_def get_summary_def TagExtractor_def)

section \<open>Properties of the PDF extractor\<close>

lemma native_pages:
  "concat (map (\<lambda>p. case native p of None \<Rightarrow> [] | Some t \<Rightarrow> if t \<noteq> [] then [t] else []) ps)
   = filter (\<lambda>t. t \<noteq> []) (map (\<lambda>p. case native p of None \<Rightarrow> [] | Some t \<Rightarrow> t) ps)"
  by (induction ps) (simp_all split: option.split)

lemma extract_text_standard_ok:
  "open_pdf env (pdf_path x) = Inr ps \<Longrightarrow> extract_text_standard env x = Inr (native_text ps)"
  by (simp add: extract_text_standard_def native_text_def native_pages)

lemma extract_text_standard_error:
  "open_pdf env (pdf_path x) = Inl e \<Longrightarrow> extract_text_standard env x = Inl e"
  by (simp add: extract_text_standard_def)

lemma ocr_pages_ok:
  "tesseract env \<Longrightarrow>
   ocr_pages env ps = Inr (map (\<lambda>p. recognised p PSM6 @ newline @ recognised p PSM11) ps)"
  by (induction ps) (simp_all add: image_to_string_def newline_def)

lemma ocr_pages_unavailable:
  "\<not> tesseract env \<Longrightarrow> ps \<noteq> [] \<Longrightarrow> ocr_pages env ps = Inl ExtractionUnavailable"
  by (cases ps) (simp_all add: image_to_string_def)

lemma extract_text_ocr_ok:
  "open_pdf env (pdf_path x) = Inr ps \<Longrightarrow> tesseract env \<Longrightarrow>
   extract_text_ocr env x = Inr (ocr_text ps)"
  by (simp add: extract_text_ocr_def ocr_pages_ok ocr_text_def)


subsection \<open>Claims about the PDF extractor\<close>

text \<open>
  C3. For a document that opens, \<open>extract_text\<close> returns the native text whenever its
  length is at least the threshold; below the threshold it returns the native text as
  it is when \<open>use_ocr\<close> is false, and, when \<open>use_ocr\<close> is true and the engine runs, the
  native text, a newline and the recognised text, which is never the recognised text
  alone.
\<close>

theorem extract_text_cases:
  assumes "open_pdf env (pdf_path x) = Inr ps"
  shows "(thr \<le> int (length (native_text ps)) \<longrightarrow>
            extract_text env x use_ocr thr = Inr (native_text ps))
       \<and> (int (length (native_text ps)) < thr \<longrightarrow>
            extract_text env x False thr = Inr (native_text ps))
       \<and> (int (length (native_text ps)) < thr \<and> tesseract env \<longrightarrow>
            extract_text env x True thr = Inr (native_text ps @ newline @ ocr_text ps)
            \<and> native_text ps @ newline @ ocr_text ps \<noteq> ocr_text ps)"
  using assms
  by (simp add: extract_text_def extract_text_standard_ok extract_text_ocr_ok newline_def)

theorem extract_text_cases_witness:
  "open_pdf (example_env True) ''scan.pdf'' = Inr [example_page]
   \<and> extract_text (example_env True) \<lparr>pdf_path = ''scan.pdf''\<rparr> True 7 = Inr ''VLV1001''
   \<and> extract_text (example_env True) \<lparr>pdf_path = ''scan.pdf''\<rparr> False 200 = Inr ''VLV1001''
   \<and> extract_text (example_env True) \<lparr>pdf_path = ''scan.pdf''\<rparr> True 200
       = Inr (''VLV1001'' @ newline @ ''KD1'' @ newline @ ''KD2'')"
proof -
  have o: "open_pdf (example_env True) (pdf_path \<lparr>pdf_path = ''scan.pdf''\<rparr>) = Inr [example_page]"
    by (simp add: open_pdf_def example_env_def)
  have n: "native_text [example_page] = ''VLV1001''"
    by (simp add: native_text_def example_page_def)
  have r: "ocr_text [example_page] = ''KD1'' @ newline @ ''KD2''"
    by (simp add: ocr_text_def example_page_def)
  have t: "tesseract (example_env True)"
    by (simp add: example_env_def)
  show ?thesis
    using o extract_text_cases [OF o, of 7 True] extract_text_cases [OF o, of 200 False] t
    by (simp add: n r)
qed






text \<open>
  C7. The claim: when the recognition engine is unavailable, \<open>extract_text\<close> degrades to
  the native text. On the scanned document, whose native text is \<open>VLV1001\<close>, the call
  with OCR and the default threshold raises \<open>ExtractionUnavailable\<close> and returns nothing.
\<close>

theorem engine_unavailable_counterexample:
  "tesseract (example_env False) = False
   \<and> extract_text_standard (example_env False) \<lparr>pdf_path = ''scan.pdf''\<rparr> = Inr ''VLV1001''
   \<and> extract_text (example_env False) \<lparr>pdf_path = ''scan.pdf''\<rparr> True 200 = Inl ExtractionUnavailable"
  by (simp add: example_env_def example_page_def extract_text_def extract_text_standard_def
      extract_text_ocr_def open_pdf_def image_to_string_def)

text \<open>
  C7, as amended. When the recognition engine is unavailable, \<open>extract_text\<close> returns
  the native text if it reaches the threshold or \<open>use_ocr\<close> is false; if recognition is
  needed (native text below the threshold, \<open>use_ocr\<close> true, at least one page) the call
  ends with \<open>ExtractionUnavailable\<close> and returns no text.
\<close>

theorem engine_unavailable:
  assumes "\<not> tesseract env" and "open_pdf env (pdf_path x) = Inr ps"
  shows "(thr \<le> int (length (native_text ps)) \<or> \<not> use_ocr \<longrightarrow>
            extract_text env x use_ocr thr = Inr (native_text ps))
       \<and> (int (length (native_text ps)) < thr \<and> use_ocr \<and> ps \<noteq> [] \<longrightarrow>
            extract_text env x use_ocr thr = Inl ExtractionUnavailable)"
  using assms
  by (simp add: extract_text_def extract_text_standard_ok extract_text_ocr_def
      ocr_pages_unavailable)

theorem engine_unavailable_witness:
  "\<not> tesseract (example_env False)
   \<and> extract_text (example_env False) \<lparr>pdf_path = ''scan.pdf''\<rparr> True 7 = Inr ''VLV1001''
   \<and> extract_text (example_env False) \<lparr>pdf_path = ''scan.pdf''\<rparr> False 200 = Inr ''VLV1001''
   \<and> extract_text (example_env False) \<lparr>pdf_path = ''scan.pdf''\<rparr> True 200 = Inl ExtractionUnavailable"
proof -
  have o: "open_pdf (example_env False) (pdf_path \<lparr>pdf_path = ''scan.pdf''\<rparr>) = Inr [example_page]"
    by (simp add: open_pdf_def example_env_def)
  have n: "native_text [example_page] = ''VLV1001''"
    by (simp add: native_text_def example_page_def)
  have t: "\<not> tesseract (example_env False)"
    by (simp add: example_env_def)
  show ?thesis
    using t engine_unavailable [OF t o, of 7 True] engine_unavailable [OF t o, of 200 False]
      engine_unavailable [OF t o, of 200 True]
    by (simp add: n)
qed

end
